theory Spec2Isabelle
  imports Main "HOL-Library.Word" "HOL-Library.Sublist"
begin

section \<open>Copy-on-write trie (src/primer/trie.cpp)\<close>

subsection \<open>Values and nodes\<close>

text \<open>
  The value types the source instantiates \<open>Put\<close> and \<open>Get\<close> with (trie.cpp, the
  explicit instantiations at the end of the file). \<open>Integer\<close> is
  \<open>std::unique_ptr<uint32_t>\<close>, which may be null. The contents of \<open>MoveBlocked\<close> are
  declared in the header and play no role in the trie; they are the type parameter.
\<close>

datatype ty = T_uint32 | T_uint64 | T_string | T_Integer | T_MoveBlocked

datatype 'mb val =
    V_uint32 "32 word"
  | V_uint64 "64 word"
  | V_string string
  | V_Integer "32 word option"
  | V_MoveBlocked 'mb

fun type_of :: "'mb val \<Rightarrow> ty" where
  "type_of (V_uint32 _) = T_uint32"
| "type_of (V_uint64 _) = T_uint64"
| "type_of (V_string _) = T_string"
| "type_of (V_Integer _) = T_Integer"
| "type_of (V_MoveBlocked _) = T_MoveBlocked"

text \<open>
  Nodes live in a store and are named by their address; a \<open>std::shared_ptr\<close> to a node
  is an address, and the null pointer is \<open>None\<close>. The class \<open>TrieNode\<close> and its subclass
  \<open>TrieNodeWithValue<T>\<close> are the two constructors. The fields \<open>children_\<close>
  (a \<open>std::map<char, std::shared_ptr<const TrieNode>>\<close>), \<open>value_\<close> and \<open>root_\<close> of the
  source are the selectors \<open>children\<close>, \<open>stored_value\<close> and \<open>trie_root\<close>. The flag
  \<open>is_value_node_\<close> is not read by trie.cpp and is left out. Nodes are never freed: a
  node no pointer reaches stays in the store and nothing reads it.
\<close>

type_synonym addr = nat

datatype 'mb node =
    TrieNode (children: "char \<rightharpoonup> addr")
  | TrieNodeWithValue (children: "char \<rightharpoonup> addr") (stored_value: "'mb val")

type_synonym 'mb heap = "'mb node list"

datatype Trie = Trie (trie_root: "addr option")

text \<open>
  Modelled from the spec: \<open>TrieNode::Clone\<close> and \<open>TrieNodeWithValue<T>::Clone\<close> are
  declared in primer/trie.h, which is not part of the sources. The spec has a clone copy
  the node one level: a shallow copy of its children mapping (the children themselves are
  shared, not copied). A value-bearing node keeps its value in the clone: the spec has
  \<open>Get("a") == 1\<close> hold after \<open>Put("a", 1).Put("ab", 2)\<close>, where the second \<open>Put\<close>
  clones the node of \<open>"a"\<close>.
\<close>

fun Clone :: "'mb node \<Rightarrow> 'mb node" where
  "Clone (TrieNode m) = TrieNode m"
| "Clone (TrieNodeWithValue m v) = TrieNodeWithValue m v"

text \<open>\<open>std::make_shared\<close> and \<open>new\<close>: the node is stored at the next free address.\<close>

definition alloc :: "'mb heap \<Rightarrow> 'mb node \<Rightarrow> 'mb heap \<times> addr" where
  "alloc h n = (h @ [n], length h)"

text \<open>Writing the children mapping of the node at an address (the value is kept).\<close>

fun set_children :: "'mb node \<Rightarrow> (char \<rightharpoonup> addr) \<Rightarrow> 'mb node" where
  "set_children (TrieNode _) m = TrieNode m"
| "set_children (TrieNodeWithValue _ v) m = TrieNodeWithValue m v"

text \<open>\<open>std::map::insert\<close> stores the pair only when the key has no entry yet.\<close>

definition map_insert :: "(char \<rightharpoonup> addr) \<Rightarrow> char \<Rightarrow> addr \<Rightarrow> (char \<rightharpoonup> addr)" where
  "map_insert m c a = (case m c of None \<Rightarrow> m(c \<mapsto> a) | Some _ \<Rightarrow> m)"

text \<open>
  Lines 64 to 69 of \<open>Put\<close>: \<open>it->second = cur\<close> when the symbol has an entry in
  \<open>prev->children_\<close>, \<open>prev->children_.insert\<close> otherwise.
\<close>

definition attach :: "'mb heap \<Rightarrow> addr \<Rightarrow> char \<Rightarrow> addr \<Rightarrow> 'mb heap" where
  "attach h prev c cur =
     (let m = children (h ! prev) in
      h[prev := set_children (h ! prev)
          (case m c of Some _ \<Rightarrow> m(c \<mapsto> cur) | None \<Rightarrow> map_insert m c cur)])"

text \<open>The assignment \<open>it->second = cur\<close> through an iterator that is not the end.\<close>

definition assign :: "'mb heap \<Rightarrow> addr \<Rightarrow> char \<Rightarrow> addr \<Rightarrow> 'mb heap" where
  "assign h prev c cur = h[prev := set_children (h ! prev) ((children (h ! prev))(c \<mapsto> cur))]"

subsection \<open>GetTrieNode and Get\<close>

text \<open>
  The loop of \<open>GetTrieNode\<close> over the symbols of the key: it stops on a null \<open>cur\<close>
  (only a null root can be one) and returns null when a symbol has no child.
\<close>

fun GetTrieNode_loop :: "'mb heap \<Rightarrow> addr option \<Rightarrow> string \<Rightarrow> addr option" where
  "GetTrieNode_loop h cur [] = cur"
| "GetTrieNode_loop h cur (ch # rest) =
     (case cur of
        None \<Rightarrow> None
      | Some a \<Rightarrow>
          (case children (h ! a) ch of
             None \<Rightarrow> None
           | Some b \<Rightarrow> GetTrieNode_loop h (Some b) rest))"

definition GetTrieNode :: "'mb heap \<Rightarrow> Trie \<Rightarrow> string \<Rightarrow> addr option" where
  "GetTrieNode h t key = GetTrieNode_loop h (trie_root t) key"

text \<open>
  \<open>Get<T>\<close>: the \<open>dynamic_cast\<close> to \<open>TrieNodeWithValue<T>\<close> succeeds on a value-bearing
  node whose value has type \<open>T\<close>; on a null pointer, a plain node or another value type
  it gives null, and \<open>Get\<close> returns null.
\<close>

definition Get :: "'mb heap \<Rightarrow> Trie \<Rightarrow> ty \<Rightarrow> string \<Rightarrow> 'mb val option" where
  "Get h t T key =
     (case GetTrieNode h t key of
        None \<Rightarrow> None
      | Some a \<Rightarrow>
          (case h ! a of
             TrieNode _ \<Rightarrow> None
           | TrieNodeWithValue _ v \<Rightarrow> if type_of v = T then Some v else None))"

subsection \<open>Put\<close>

text \<open>
  The loop of \<open>Put\<close> from symbol \<open>i\<close> on: \<open>prev\<close> is the node built for the symbols
  before, the list is what is left of the key. The node for the last symbol is a new
  \<open>TrieNodeWithValue\<close> with no children.
\<close>

fun Put_loop :: "'mb heap \<Rightarrow> addr \<Rightarrow> string \<Rightarrow> 'mb val \<Rightarrow> 'mb heap" where
  "Put_loop h prev [] v = h"
| "Put_loop h prev (c # rest) v =
     (let it = children (h ! prev) c;
          (h1, cur) =
            (if rest = [] then alloc h (TrieNodeWithValue Map.empty v)
             else (case it of
                     Some a \<Rightarrow> alloc h (Clone (h ! a))
                   | None \<Rightarrow> alloc h (TrieNode Map.empty)))
      in Put_loop (attach h1 prev c cur) cur rest v)"

definition Put :: "'mb heap \<Rightarrow> Trie \<Rightarrow> string \<Rightarrow> 'mb val \<Rightarrow> 'mb heap \<times> Trie" where
  "Put h t key v =
     (if key = [] then (h, Trie (trie_root t))
      else
        let (h1, root) =
              (case trie_root t of
                 Some r \<Rightarrow> alloc h (Clone (h ! r))
               | None \<Rightarrow> alloc h (TrieNode Map.empty))
        in (Put_loop h1 root key v, Trie (Some root)))"

subsection \<open>Remove\<close>

text \<open>
  The loop of \<open>Remove\<close>. It dereferences \<open>it->second\<close> without a check: where the symbol
  has no entry the behaviour is undefined, which is the result \<open>None\<close>. At the last
  symbol the replacement node is written into the entry only when it has children;
  otherwise the entry is left as the clone of the parent has it.
\<close>

fun Remove_loop :: "'mb heap \<Rightarrow> addr \<Rightarrow> string \<Rightarrow> 'mb heap option" where
  "Remove_loop h prev [] = Some h"
| "Remove_loop h prev (c # rest) =
     (case children (h ! prev) c of
        None \<Rightarrow> None
      | Some a \<Rightarrow>
          if rest = [] then
            (let (h1, cur) = alloc h (TrieNode (children (h ! a)))
             in if children (h1 ! cur) \<noteq> Map.empty
                then Remove_loop (assign h1 prev c cur) cur rest
                else Remove_loop h1 cur rest)
          else
            (let (h1, cur) = alloc h (Clone (h ! a))
             in Remove_loop (assign h1 prev c cur) cur rest))"

definition Remove :: "'mb heap \<Rightarrow> Trie \<Rightarrow> string \<Rightarrow> ('mb heap \<times> Trie) option" where
  "Remove h t key =
     (if key = [] \<or> trie_root t = None \<or> GetTrieNode h t key = None then Some (h, Trie (trie_root t))
      else
        (case trie_root t of
           None \<Rightarrow> None
         | Some r \<Rightarrow>
             (let (h1, root) = alloc h (Clone (h ! r))
              in map_option (\<lambda>h'. (h', Trie (Some root))) (Remove_loop h1 root key))))"

subsection \<open>Well-formed stores and what a trie shows\<close>

text \<open>
  A shared pointer never dangles: in a well-formed store every child address is the
  address of a node, and so is the root of a trie.
\<close>

definition wf_heap :: "'mb heap \<Rightarrow> bool" where
  "wf_heap h = (\<forall>a<length h. \<forall>c b. children (h ! a) c = Some b \<longrightarrow> b < length h)"

definition wf_trie :: "'mb heap \<Rightarrow> Trie \<Rightarrow> bool" where
  "wf_trie h t = (wf_heap h \<and> (case trie_root t of None \<Rightarrow> True | Some r \<Rightarrow> r < length h))"

text \<open>The value a node carries, if it is a \<open>TrieNodeWithValue\<close>.\<close>

fun value_of :: "'mb node \<Rightarrow> 'mb val option" where
  "value_of (TrieNode _) = None"
| "value_of (TrieNodeWithValue _ v) = Some v"

text \<open>
  What a key shows of a trie: \<open>None\<close> when the walk finds no node, \<open>Some None\<close> for a
  node without a value, \<open>Some (Some v)\<close> for a node with the value \<open>v\<close>.
\<close>

definition val_at :: "'mb heap \<Rightarrow> addr option \<Rightarrow> string \<Rightarrow> 'mb val option option" where
  "val_at h cur key = map_option (\<lambda>e. value_of (h ! e)) (GetTrieNode_loop h cur key)"

text \<open>
  Two tries are structurally equal when every key finds a node in both or in neither,
  and the nodes found carry the same value or both none. (The children of a node are the
  one-symbol extensions of its key that find a node.)
\<close>

definition struct_equiv :: "'mb heap \<Rightarrow> Trie \<Rightarrow> 'mb heap \<Rightarrow> Trie \<Rightarrow> bool" where
  "struct_equiv h1 t1 h2 t2 = (\<forall>key. val_at h1 (trie_root t1) key = val_at h2 (trie_root t2) key)"

text \<open>
  The addresses below \<open>n\<close> are closed under children: the part of the store that
  existed when an operation began.
\<close>

definition closed :: "nat \<Rightarrow> 'mb heap \<Rightarrow> bool" where
  "closed n h = (n \<le> length h \<and> (\<forall>a<n. \<forall>c b. children (h ! a) c = Some b \<longrightarrow> b < n))"

text \<open>
  The node at \<open>p\<close> was made by the running operation and its children are nodes of
  the old part of the store.
\<close>

definition priv :: "nat \<Rightarrow> 'mb heap \<Rightarrow> addr \<Rightarrow> bool" where
  "priv n h p = (closed n h \<and> n \<le> p \<and> p < length h \<and>
     (\<forall>c b. children (h ! p) c = Some b \<longrightarrow> b < n))"

text \<open>
  The walk of the spec, in its words: every symbol of the key has a child along the walk
  from a node, and the walk ends on a node.
\<close>

inductive walk :: "'mb heap \<Rightarrow> addr \<Rightarrow> string \<Rightarrow> addr \<Rightarrow> bool" where
  walk_Nil: "walk h a [] a"
| walk_Cons: "children (h ! a) c = Some b \<Longrightarrow> walk h b cs e \<Longrightarrow> walk h a (c # cs) e"

code_pred walk .

text \<open>
  The node the loop of \<open>Put\<close> makes for the symbol \<open>c\<close> at the node \<open>p\<close>, when
  \<open>rest\<close> is what follows \<open>c\<close> in the key (a clone is equal to the node it copies).
\<close>

definition Put_node :: "'mb heap \<Rightarrow> addr \<Rightarrow> char \<Rightarrow> string \<Rightarrow> 'mb val \<Rightarrow> 'mb node" where
  "Put_node h p c rest v =
     (if rest = [] then TrieNodeWithValue Map.empty v
      else case children (h ! p) c of Some a \<Rightarrow> h ! a | None \<Rightarrow> TrieNode Map.empty)"

text \<open>The node a key leads to has at least one child.\<close>

definition has_children :: "'mb heap \<Rightarrow> Trie \<Rightarrow> string \<Rightarrow> bool" where
  "has_children h t key =
     (case GetTrieNode h t key of None \<Rightarrow> False | Some e \<Rightarrow> children (h ! e) \<noteq> Map.empty)"

text \<open>
  An example: the store and the trie that \<open>Trie().Put("ab", 1)\<close> builds from the empty
  store. The root is node 0, node 1 is the node of \<open>"a"\<close>, and node 2, the node of
  \<open>"ab"\<close>, is a leaf with the value 1.
\<close>

definition heap_ab :: "unit heap" where
  "heap_ab = [TrieNode [CHR ''a'' \<mapsto> 1], TrieNode [CHR ''b'' \<mapsto> 2],
              TrieNodeWithValue Map.empty (V_uint32 1)]"

definition trie_ab :: Trie where
  "trie_ab = Trie (Some 0)"

text \<open>
  The store that \<open>Remove("ab")\<close> leaves from the example: node 3 is the clone of the
  root, node 4 the clone of the node of \<open>"a"\<close>, node 5 the replacement built for
  \<open>"ab"\<close>, which has no children and is attached nowhere.
\<close>

definition heap_ab_removed :: "unit heap" where
  "heap_ab_removed = heap_ab @ [TrieNode [CHR ''a'' \<mapsto> 4], TrieNode [CHR ''b'' \<mapsto> 2],
     TrieNode Map.empty]"

text \<open>
  The store that \<open>Remove("a")\<close> leaves from the example: node 3 is the clone of the
  root and node 4 the replacement for the node of \<open>"a"\<close>, with the children of the old
  one.
\<close>

definition heap_a_removed :: "unit heap" where
  "heap_a_removed = heap_ab @ [TrieNode [CHR ''a'' \<mapsto> 4], TrieNode [CHR ''b'' \<mapsto> 2]]"

text \<open>
  A second example: the store and the trie that \<open>Trie().Put("a", 1).Put("ab", 2)\<close>
  builds from the empty store. Nodes 0 and 1 are the trie of the first \<open>Put\<close>; the root
  is node 2, node 3 is the node of \<open>"a"\<close> (value 1) and node 4 the node of \<open>"ab"\<close>
  (value 2).
\<close>

definition heap_a_ab :: "unit heap" where
  "heap_a_ab = [TrieNode [CHR ''a'' \<mapsto> 1], TrieNodeWithValue Map.empty (V_uint32 1),
     TrieNode [CHR ''a'' \<mapsto> 3], TrieNodeWithValue [CHR ''b'' \<mapsto> 4] (V_uint32 1),
     TrieNodeWithValue Map.empty (V_uint32 2)]"

definition trie_a_ab :: Trie where
  "trie_a_ab = Trie (Some 2)"

section \<open>Properties\<close>

subsection \<open>Nodes and the store\<close>

lemma Clone_id [simp]: "Clone n = n"
  by (cases n) simp_all

lemma children_set_children [simp]: "children (set_children n m) = m"
  by (cases n) simp_all

lemma value_of_set_children [simp]: "value_of (set_children n m) = value_of n"
  by (cases n) simp_all

lemma attach_assign: "attach h prev c cur = assign h prev c cur"
  by (simp add: attach_def assign_def map_insert_def Let_def split: option.split)

lemma length_assign [simp]: "length (assign h p c cur) = length h"
  by (simp add: assign_def)

lemma nth_assign_same:
  "p < length h \<Longrightarrow> assign h p c cur ! p = set_children (h ! p) ((children (h ! p))(c \<mapsto> cur))"
  by (simp add: assign_def)

lemma nth_assign_other [simp]: "a \<noteq> p \<Longrightarrow> assign h p c cur ! a = h ! a"
  by (simp add: assign_def)

subsection \<open>Walks\<close>

lemma val_at_Nil [simp]: "val_at h cur [] = map_option (\<lambda>e. value_of (h ! e)) cur"
  by (simp add: val_at_def)

lemma val_at_None [simp]: "val_at h None key = None"
  by (cases key) (simp_all add: val_at_def)

lemma val_at_Cons [simp]:
  "val_at h (Some a) (c # cs) =
     (case children (h ! a) c of None \<Rightarrow> None | Some b \<Rightarrow> val_at h (Some b) cs)"
  by (simp add: val_at_def split: option.split)

lemma Get_val_at:
  "Get h t T key =
     (case val_at h (trie_root t) key of
        Some (Some v) \<Rightarrow> if type_of v = T then Some v else None
      | _ \<Rightarrow> None)"
proof (cases "GetTrieNode_loop h (trie_root t) key")
  case None
  then show ?thesis by (simp add: Get_def GetTrieNode_def val_at_def)
next
  case (Some a)
  then show ?thesis
    by (cases "h ! a") (simp_all add: Get_def GetTrieNode_def val_at_def)
qed

lemma walk_same:
  assumes "closed n h" and "\<forall>a<n. h' ! a = h ! a"
  shows "a < n \<Longrightarrow> GetTrieNode_loop h' (Some a) key = GetTrieNode_loop h (Some a) key \<and>
     (\<forall>e. GetTrieNode_loop h (Some a) key = Some e \<longrightarrow> e < n)"
proof (induction key arbitrary: a)
  case Nil
  then show ?case by simp
next
  case (Cons c cs)
  show ?case
  proof (cases "children (h ! a) c")
    case None
    with Cons.prems assms show ?thesis by simp
  next
    case (Some b)
    with Cons.prems assms have "b < n" by (auto simp: closed_def)
    from Cons.IH [OF this] Some Cons.prems assms show ?thesis by simp
  qed
qed

lemma walk_node_eq:
  assumes "closed n h" and "\<forall>a<n. h' ! a = h ! a"
    and "\<forall>c b. children (h ! y) c = Some b \<longrightarrow> b < n" and "h' ! x = h ! y"
  shows "key \<noteq> [] \<Longrightarrow> GetTrieNode_loop h' (Some x) key = GetTrieNode_loop h (Some y) key \<and>
     (\<forall>e. GetTrieNode_loop h (Some y) key = Some e \<longrightarrow> e < n)"
proof (cases key)
  case Nil
  assume "key \<noteq> []"
  with Nil show ?thesis by simp
next
  case (Cons c cs)
  show ?thesis
  proof (cases "children (h ! y) c")
    case None
    with Cons assms show ?thesis by simp
  next
    case (Some b)
    with assms have "b < n" by blast
    from walk_same [OF assms(1,2) this, of cs] Some Cons assms(4) show ?thesis by simp
  qed
qed

lemma val_at_same:
  assumes "closed n h" and "\<forall>a<n. h' ! a = h ! a" and "a < n"
  shows "val_at h' (Some a) key = val_at h (Some a) key"
proof (cases "GetTrieNode_loop h (Some a) key")
  case None
  with walk_same [OF assms, of key] show ?thesis by (simp add: val_at_def)
next
  case (Some e)
  with walk_same [OF assms, of key] have "GetTrieNode_loop h' (Some a) key = Some e" "e < n"
    by simp_all
  with Some assms(2) show ?thesis by (simp add: val_at_def)
qed

lemma val_at_node_eq:
  assumes "closed n h" and "\<forall>a<n. h' ! a = h ! a"
    and "\<forall>c b. children (h ! y) c = Some b \<longrightarrow> b < n" and "h' ! x = h ! y"
  shows "val_at h' (Some x) key = val_at h (Some y) key"
proof (cases key)
  case Nil
  with assms(4) show ?thesis by simp
next
  case (Cons c cs)
  show ?thesis
  proof (cases "children (h ! y) c")
    case None
    with Cons assms(4) show ?thesis by simp
  next
    case (Some b)
    with assms(3) have "b < n" by blast
    from val_at_same [OF assms(1,2) this, of cs] Some Cons assms(4) show ?thesis by simp
  qed
qed


lemma Put_loop_Cons:
  "Put_loop h p (c # rest) v =
     Put_loop (assign (h @ [Put_node h p c rest v]) p c (length h)) (length h) rest v"
  by (simp add: Put_node_def alloc_def attach_assign split: option.split)

declare Put_loop.simps(2) [simp del]

lemma Put_loop_length: "length h \<le> length (Put_loop h p key v)"
proof (induction key arbitrary: h p)
  case Nil
  show ?case by simp
next
  case (Cons c rest)
  have "length (assign (h @ [Put_node h p c rest v]) p c (length h))
      \<le> length (Put_loop (assign (h @ [Put_node h p c rest v]) p c (length h)) (length h) rest v)"
    by (rule Cons.IH)
  then show ?case by (simp only: Put_loop_Cons) simp
qed

lemma Put_loop_frame:
  "a < length h \<Longrightarrow> a \<noteq> p \<Longrightarrow> Put_loop h p key v ! a = h ! a"
proof (induction key arbitrary: h p)
  case Nil
  show ?case by simp
next
  case (Cons c rest)
  let ?h2 = "assign (h @ [Put_node h p c rest v]) p c (length h)"
  from Cons.prems have "Put_loop ?h2 (length h) rest v ! a = ?h2 ! a"
    by (intro Cons.IH) simp_all
  with Cons.prems show ?case by (simp only: Put_loop_Cons) (simp add: nth_append)
qed

lemma Put_loop_nth_prev:
  assumes "p < length h"
  shows "Put_loop h p (c # rest) v ! p = set_children (h ! p) ((children (h ! p))(c \<mapsto> length h))"
proof -
  let ?h2 = "assign (h @ [Put_node h p c rest v]) p c (length h)"
  from assms have "Put_loop ?h2 (length h) rest v ! p = ?h2 ! p"
    by (intro Put_loop_frame) simp_all
  with assms show ?thesis
    by (simp only: Put_loop_Cons) (simp add: nth_assign_same nth_append)
qed

lemma wf_heapD: "wf_heap h \<Longrightarrow> a < length h \<Longrightarrow> children (h ! a) c = Some b \<Longrightarrow> b < length h"
  unfolding wf_heap_def by blast

lemma wf_heap_step:
  assumes "wf_heap h" and "p < length h" and "\<forall>c b. children nd c = Some b \<longrightarrow> b < length h"
  shows "wf_heap (assign (h @ [nd]) p c (length h))"
  unfolding wf_heap_def
proof (intro allI impI)
  fix a c' b
  assume a: "a < length (assign (h @ [nd]) p c (length h))"
    and ch: "children (assign (h @ [nd]) p c (length h) ! a) c' = Some b"
  show "b < length (assign (h @ [nd]) p c (length h))"
  proof (cases "a = p")
    case True
    with ch assms(2) have "((children (h ! p))(c \<mapsto> length h)) c' = Some b"
      by (simp add: nth_assign_same nth_append)
    with assms(1,2) have "b \<le> length h"
      by (auto dest: wf_heapD split: if_splits)
    then show ?thesis by simp
  next
    case False
    show ?thesis
    proof (cases "a < length h")
      case True
      with False ch assms(1) have "b < length h"
        by (auto dest: wf_heapD simp: nth_append)
      then show ?thesis by simp
    next
      case False
      with a have "a = length h" by simp
      with \<open>a \<noteq> p\<close> ch assms(3) have "b < length h" by (auto simp: nth_append)
      then show ?thesis by simp
    qed
  qed
qed

lemma wf_heap_alloc:
  assumes "wf_heap h" and "\<forall>c b. children nd c = Some b \<longrightarrow> b < length h"
  shows "wf_heap (h @ [nd])"
  unfolding wf_heap_def
proof (intro allI impI)
  fix a c' b
  assume a: "a < length (h @ [nd])" and ch: "children ((h @ [nd]) ! a) c' = Some b"
  show "b < length (h @ [nd])"
  proof (cases "a < length h")
    case True
    with ch assms(1) have "b < length h" by (auto dest: wf_heapD simp: nth_append)
    then show ?thesis by simp
  next
    case False
    with a have "a = length h" by simp
    with ch assms(2) have "b < length h" by (auto simp: nth_append)
    then show ?thesis by simp
  qed
qed

lemma Put_node_children:
  assumes "wf_heap h" and "p < length h" and "children (Put_node h p c rest v) c' = Some b"
  shows "b < length h"
proof (cases "rest = []")
  case True
  with assms(3) show ?thesis by (simp add: Put_node_def)
next
  case False
  show ?thesis
  proof (cases "children (h ! p) c")
    case None
    with False assms(3) show ?thesis by (simp add: Put_node_def)
  next
    case (Some a)
    with assms(1,2) have "a < length h" by (auto dest: wf_heapD)
    with Some False assms(1,3) show ?thesis by (auto simp: Put_node_def dest: wf_heapD)
  qed
qed

lemma Put_loop_wf:
  "wf_heap h \<Longrightarrow> p < length h \<Longrightarrow> wf_heap (Put_loop h p key v)"
proof (induction key arbitrary: h p)
  case Nil
  then show ?case by simp
next
  case (Cons c rest)
  let ?h2 = "assign (h @ [Put_node h p c rest v]) p c (length h)"
  from Cons.prems have "wf_heap ?h2"
    by (intro wf_heap_step) (auto dest: Put_node_children)
  then have "wf_heap (Put_loop ?h2 (length h) rest v)"
    by (rule Cons.IH) simp
  then show ?case by (simp only: Put_loop_Cons)
qed

lemma strict_prefix_Nil_iff: "strict_prefix [] xs = (xs \<noteq> [])"
  by (cases xs) simp_all

lemma Put_loop_val_at:
  "priv n h p \<Longrightarrow> key \<noteq> [] \<Longrightarrow>
   val_at (Put_loop h p key v) (Some p) k =
     (if k = key then Some (Some v)
      else if strict_prefix key k then None
      else if strict_prefix k key
        then Some (case val_at h (Some p) k of Some x \<Rightarrow> x | None \<Rightarrow> None)
      else val_at h (Some p) k)"
proof (induction key arbitrary: h p k)
  case Nil
  then show ?case by simp
next
  case (Cons c rest)
  let ?nd = "Put_node h p c rest v"
  let ?h2 = "assign (h @ [?nd]) p c (length h)"
  let ?h' = "Put_loop ?h2 (length h) rest v"
  from Cons.prems(1) have cl: "closed n h" and np: "n \<le> p" and pl: "p < length h"
    and chp: "\<forall>c b. children (h ! p) c = Some b \<longrightarrow> b < n"
    by (simp_all add: priv_def)
  have eq: "Put_loop h p (c # rest) v = ?h'" by (rule Put_loop_Cons)
  have hp: "?h' ! p = set_children (h ! p) ((children (h ! p))(c \<mapsto> length h))"
    using Put_loop_nth_prev [OF pl, of c rest v] by (simp only: eq)
  have old: "\<forall>a<n. ?h' ! a = h ! a"
  proof (intro allI impI)
    fix a assume "a < n"
    with np pl have "a < length h" "a \<noteq> p" by simp_all
    then have "Put_loop h p (c # rest) v ! a = h ! a" by (rule Put_loop_frame)
    then show "?h' ! a = h ! a" by (simp only: eq)
  qed
  have old2: "\<forall>a<n. ?h2 ! a = h ! a"
    using np pl by (simp add: nth_append)
  have cur2: "?h2 ! length h = ?nd"
    using pl by simp
  have "val_at ?h' (Some p) k =
     (if k = c # rest then Some (Some v)
      else if strict_prefix (c # rest) k then None
      else if strict_prefix k (c # rest)
        then Some (case val_at h (Some p) k of Some x \<Rightarrow> x | None \<Rightarrow> None)
      else val_at h (Some p) k)"
  proof (cases k)
    case Nil
    with hp show ?thesis by simp
  next
    case k: (Cons c' r')
    show ?thesis
    proof (cases "c' = c")
      case False
      show ?thesis
      proof (cases "children (h ! p) c'")
        case None
        with False k hp show ?thesis by simp
      next
        case (Some b)
        with chp have "b < n" by blast
        from val_at_same [OF cl old this, of r'] Some False k hp
        show ?thesis by simp
      qed
    next
      case True
      have step: "val_at ?h' (Some p) (c # r') = val_at ?h' (Some (length h)) r'"
        using hp by simp
      show ?thesis
      proof (cases "rest = []")
        case True
        then have "?h' ! length h = TrieNodeWithValue Map.empty v"
          using cur2 by (simp add: Put_node_def)
        then have "val_at ?h' (Some (length h)) r' = (if r' = [] then Some (Some v) else None)"
          by (cases r') simp_all
        then have g: "val_at ?h' (Some p) (c # r') = (if r' = [] then Some (Some v) else None)"
          by (simp only: step)
        have sel: "(k = c # rest) = (r' = [])" "strict_prefix (c # rest) k = (r' \<noteq> [])"
          using True k \<open>c' = c\<close> by (simp_all add: strict_prefix_Nil_iff)
        have "val_at ?h' (Some p) k = (if r' = [] then Some (Some v) else None)"
          using g k \<open>c' = c\<close> by (simp only:)
        then show ?thesis
          by (simp only: sel split: if_split) simp
      next
        case False
        have cl2: "closed n ?h2"
          using cl old2 by (simp add: closed_def)
        have chcur: "\<forall>c' b. children (?h2 ! length h) c' = Some b \<longrightarrow> b < n"
        proof (cases "children (h ! p) c")
          case None
          with False cur2 show ?thesis by (simp add: Put_node_def)
        next
          case (Some a)
          with chp have "a < n" by blast
          with cl have "\<forall>c b. children (h ! a) c = Some b \<longrightarrow> b < n"
            by (simp add: closed_def)
          with Some False cur2 show ?thesis by (simp add: Put_node_def)
        qed
        have "priv n ?h2 (length h)"
          unfolding priv_def
        proof (intro conjI)
          show "closed n ?h2" by (rule cl2)
          show "n \<le> length h" using np pl by simp
          show "length h < length ?h2" by simp
          show "\<forall>c' b. children (?h2 ! length h) c' = Some b \<longrightarrow> b < n" by (rule chcur)
        qed
        from Cons.IH [OF this False, of r']
        have ih: "val_at ?h' (Some (length h)) r' =
          (if r' = rest then Some (Some v)
           else if strict_prefix rest r' then None
           else if strict_prefix r' rest
             then Some (case val_at ?h2 (Some (length h)) r' of Some x \<Rightarrow> x | None \<Rightarrow> None)
           else val_at ?h2 (Some (length h)) r')" .
        have nil: "r' = [] \<Longrightarrow> strict_prefix r' rest"
          using False by (simp add: strict_prefix_Nil_iff)
        have goal: "val_at ?h' (Some (length h)) r' =
          (if r' = rest then Some (Some v)
           else if strict_prefix rest r' then None
           else if strict_prefix r' rest
             then Some (case val_at h (Some p) (c # r') of Some x \<Rightarrow> x | None \<Rightarrow> None)
           else val_at h (Some p) (c # r'))"
        proof (cases "children (h ! p) c")
          case None
          with False cur2 have "?h2 ! length h = TrieNode Map.empty" by (simp add: Put_node_def)
          then have v2: "val_at ?h2 (Some (length h)) r' = (if r' = [] then Some None else None)"
            by (cases r') simp_all
          have v0: "val_at h (Some p) (c # r') = None" using None by simp
          show ?thesis
            unfolding ih v2 v0 using nil by (cases "r' = []") simp_all
        next
          case (Some a)
          with chp have "a < n" by blast
          with cl have cha: "\<forall>c b. children (h ! a) c = Some b \<longrightarrow> b < n"
            by (simp add: closed_def)
          from Some False cur2 have "?h2 ! length h = h ! a" by (simp add: Put_node_def)
          from val_at_node_eq [OF cl old2 cha this, of r'] Some
          have "val_at ?h2 (Some (length h)) r' = val_at h (Some p) (c # r')" by simp
          then show ?thesis unfolding ih by (simp only:)
        qed
        show ?thesis
          unfolding k \<open>c' = c\<close> step goal by simp
      qed
    qed
  qed
  then show ?case by (simp only: eq)
qed


lemma Put_Nil [simp]: "Put h t [] v = (h, t)"
  by (simp add: Put_def)

lemma Put_nonempty:
  "key \<noteq> [] \<Longrightarrow>
   Put h t key v =
     (Put_loop (h @ [case trie_root t of Some r \<Rightarrow> h ! r | None \<Rightarrow> TrieNode Map.empty])
        (length h) key v,
      Trie (Some (length h)))"
  by (simp add: Put_def alloc_def split: option.split)

lemma wf_heap_closed: "wf_heap h = closed (length h) h"
  by (simp add: wf_heap_def closed_def)

lemma closed_append: "wf_heap h \<Longrightarrow> closed (length h) (h @ [nd])"
  by (simp add: wf_heap_def closed_def nth_append)

lemma root_node_children:
  assumes "wf_trie h t"
    and "children (case trie_root t of Some r \<Rightarrow> h ! r | None \<Rightarrow> TrieNode Map.empty) c = Some b"
  shows "b < length h"
proof (cases "trie_root t")
  case None
  with assms(2) show ?thesis by simp
next
  case (Some r)
  with assms show ?thesis by (auto simp: wf_trie_def dest: wf_heapD)
qed

lemma Put_frame:
  assumes "a < length h"
  shows "fst (Put h t key v) ! a = h ! a"
proof (cases "key = []")
  case True
  then show ?thesis by simp
next
  case False
  let ?h1 = "h @ [case trie_root t of Some r \<Rightarrow> h ! r | None \<Rightarrow> TrieNode Map.empty]"
  from assms have "Put_loop ?h1 (length h) key v ! a = ?h1 ! a"
    by (intro Put_loop_frame) simp_all
  with assms False show ?thesis by (simp add: Put_nonempty nth_append)
qed

lemma Put_length: "length h \<le> length (fst (Put h t key v))"
proof (cases "key = []")
  case True
  then show ?thesis by simp
next
  case False
  let ?h1 = "h @ [case trie_root t of Some r \<Rightarrow> h ! r | None \<Rightarrow> TrieNode Map.empty]"
  have "length ?h1 \<le> length (Put_loop ?h1 (length h) key v)" by (rule Put_loop_length)
  with False show ?thesis by (simp add: Put_nonempty)
qed

lemma Put_wf:
  assumes "wf_trie h t"
  shows "wf_trie (fst (Put h t key v)) (snd (Put h t key v))"
proof (cases "key = []")
  case True
  with assms show ?thesis by simp
next
  case False
  let ?nd = "case trie_root t of Some r \<Rightarrow> h ! r | None \<Rightarrow> TrieNode Map.empty"
  let ?h1 = "h @ [?nd]"
  from assms have "wf_heap h" by (simp add: wf_trie_def)
  then have "wf_heap ?h1"
    using root_node_children [OF assms] by (intro wf_heap_alloc) blast+
  then have wf: "wf_heap (Put_loop ?h1 (length h) key v)"
    by (rule Put_loop_wf) simp
  have "length ?h1 \<le> length (Put_loop ?h1 (length h) key v)" by (rule Put_loop_length)
  then have "length h < length (Put_loop ?h1 (length h) key v)" by simp
  with wf False show ?thesis by (simp add: Put_nonempty wf_trie_def)
qed

lemma Put_val_at:
  assumes wf: "wf_trie h t" and key: "key \<noteq> []"
  shows "val_at (fst (Put h t key v)) (trie_root (snd (Put h t key v))) k =
     (if k = key then Some (Some v)
      else if strict_prefix key k then None
      else if strict_prefix k key
        then Some (case val_at h (trie_root t) k of Some x \<Rightarrow> x | None \<Rightarrow> None)
      else val_at h (trie_root t) k)"
proof -
  let ?nd = "case trie_root t of Some r \<Rightarrow> h ! r | None \<Rightarrow> TrieNode Map.empty"
  let ?h1 = "h @ [?nd]"
  let ?n = "length h"
  from wf have wfh: "wf_heap h" by (simp add: wf_trie_def)
  have cl1: "closed ?n ?h1" using wfh by (rule closed_append)
  have chn: "\<forall>c b. children (?h1 ! ?n) c = Some b \<longrightarrow> b < ?n"
    using root_node_children [OF wf] by simp
  have "priv ?n ?h1 ?n"
    unfolding priv_def
  proof (intro conjI)
    show "closed ?n ?h1" by (rule cl1)
    show "?n \<le> ?n" by simp
    show "?n < length ?h1" by simp
    show "\<forall>c b. children (?h1 ! ?n) c = Some b \<longrightarrow> b < ?n" by (rule chn)
  qed
  from Put_loop_val_at [OF this key, of v k]
  have loop: "val_at (Put_loop ?h1 ?n key v) (Some ?n) k =
     (if k = key then Some (Some v)
      else if strict_prefix key k then None
      else if strict_prefix k key
        then Some (case val_at ?h1 (Some ?n) k of Some x \<Rightarrow> x | None \<Rightarrow> None)
      else val_at ?h1 (Some ?n) k)" .
  have nil: "k = [] \<Longrightarrow> strict_prefix k key"
    using key by (simp add: strict_prefix_Nil_iff)
  have "val_at (Put_loop ?h1 ?n key v) (Some ?n) k =
     (if k = key then Some (Some v)
      else if strict_prefix key k then None
      else if strict_prefix k key
        then Some (case val_at h (trie_root t) k of Some x \<Rightarrow> x | None \<Rightarrow> None)
      else val_at h (trie_root t) k)"
  proof (cases "trie_root t")
    case None
    then have "?h1 ! ?n = TrieNode Map.empty" by simp
    then have v1: "val_at ?h1 (Some ?n) k = (if k = [] then Some None else None)"
      by (cases k) simp_all
    have v0: "val_at h (trie_root t) k = None" using None by simp
    show ?thesis
      unfolding loop v1 v0 using nil by (cases "k = []") simp_all
  next
    case (Some r)
    with wf have "r < ?n" by (simp add: wf_trie_def)
    with wfh have chr: "\<forall>c b. children (h ! r) c = Some b \<longrightarrow> b < ?n"
      by (auto dest: wf_heapD)
    have cl: "closed ?n h" using wfh by (simp add: wf_heap_closed)
    have old: "\<forall>a<?n. ?h1 ! a = h ! a" by (simp add: nth_append)
    from Some have "?h1 ! ?n = h ! r" by simp
    from val_at_node_eq [OF cl old chr this, of k] Some
    have "val_at ?h1 (Some ?n) k = val_at h (trie_root t) k" by simp
    then show ?thesis unfolding loop by (simp only:)
  qed
  with key show ?thesis by (simp add: Put_nonempty)
qed

lemma Remove_loop_Cons:
  "Remove_loop h p (c # rest) =
     (case children (h ! p) c of
        None \<Rightarrow> None
      | Some a \<Rightarrow>
          if rest = [] then
            (if children (h ! a) \<noteq> Map.empty
             then Some (assign (h @ [TrieNode (children (h ! a))]) p c (length h))
             else Some (h @ [TrieNode (children (h ! a))]))
          else Remove_loop (assign (h @ [h ! a]) p c (length h)) (length h) rest)"
  by (simp add: alloc_def split: option.split)

declare Remove_loop.simps(2) [simp del]

lemma Remove_loop_wf:
  "wf_heap h \<Longrightarrow> p < length h \<Longrightarrow> Remove_loop h p key = Some h' \<Longrightarrow> wf_heap h'"
proof (induction key arbitrary: h p)
  case Nil
  then show ?case by simp
next
  case (Cons c rest)
  from Cons.prems(3) obtain a where a: "children (h ! p) c = Some a"
    by (auto simp: Remove_loop_Cons split: option.splits)
  with Cons.prems(1,2) have al: "a < length h" by (auto dest: wf_heapD)
  with Cons.prems(1) have cha: "\<forall>c b. children (h ! a) c = Some b \<longrightarrow> b < length h"
    by (auto dest: wf_heapD)
  show ?case
  proof (cases "rest = []")
    case True
    have w1: "wf_heap (h @ [TrieNode (children (h ! a))])"
      using Cons.prems(1) cha by (intro wf_heap_alloc) simp_all
    have w2: "wf_heap (assign (h @ [TrieNode (children (h ! a))]) p c (length h))"
      using Cons.prems(1,2) cha by (intro wf_heap_step) simp_all
    from Cons.prems(3) a True w1 w2 show ?thesis
      by (auto simp: Remove_loop_Cons split: if_splits)
  next
    case False
    have "wf_heap (assign (h @ [h ! a]) p c (length h))"
      using Cons.prems(1,2) cha by (intro wf_heap_step) simp_all
    moreover from Cons.prems(3) a False
    have "Remove_loop (assign (h @ [h ! a]) p c (length h)) (length h) rest = Some h'"
      by (simp add: Remove_loop_Cons)
    ultimately show ?thesis by (intro Cons.IH [of "assign (h @ [h ! a]) p c (length h)" "length h"]) simp_all
  qed
qed


lemma val_at_children_eq:
  assumes "closed n h" and "\<forall>a<n. h' ! a = h ! a"
    and "\<forall>c b. children (h ! y) c = Some b \<longrightarrow> b < n"
    and "children (h' ! x) = children (h ! y)"
  shows "val_at h' (Some x) (c # cs) = val_at h (Some y) (c # cs)"
proof (cases "children (h ! y) c")
  case None
  with assms(4) show ?thesis by simp
next
  case (Some b)
  with assms(3) have "b < n" by blast
  from val_at_same [OF assms(1,2) this, of cs] Some assms(4) show ?thesis by simp
qed

lemma Remove_loop_val_at:
  "priv n h p \<Longrightarrow> key \<noteq> [] \<Longrightarrow> GetTrieNode_loop h (Some p) key = Some e \<Longrightarrow>
   \<exists>h'. Remove_loop h p key = Some h' \<and> length h < length h' \<and>
     (\<forall>a<length h. a \<noteq> p \<longrightarrow> h' ! a = h ! a) \<and>
     (\<forall>k. val_at h' (Some p) k =
        (if k = key \<and> children (h ! e) \<noteq> Map.empty then Some None
         else val_at h (Some p) k))"
proof (induction key arbitrary: h p e)
  case Nil
  then show ?case by simp
next
  case (Cons c rest)
  from Cons.prems(1) have cl: "closed n h" and np: "n \<le> p" and pl: "p < length h"
    and chp: "\<forall>c b. children (h ! p) c = Some b \<longrightarrow> b < n"
    by (simp_all add: priv_def)
  from Cons.prems(3) obtain a where a: "children (h ! p) c = Some a"
    and walk: "GetTrieNode_loop h (Some a) rest = Some e"
    by (auto split: option.splits)
  from a chp have an: "a < n" by blast
  with cl have cha: "\<forall>c b. children (h ! a) c = Some b \<longrightarrow> b < n"
    by (simp add: closed_def)
  from walk_same [OF cl _ an, of h rest] walk have en: "e < n" by simp
  show ?case
  proof (cases "rest = []")
    case True
    with walk have ea: "e = a" by simp
    show ?thesis
    proof (cases "children (h ! a) = Map.empty")
      case True
      let ?h' = "h @ [TrieNode (children (h ! a))]"
      have rl: "Remove_loop h p (c # rest) = Some ?h'"
        using a \<open>rest = []\<close> True by (simp add: Remove_loop_Cons)
      have old: "\<forall>a<n. ?h' ! a = h ! a"
        using np pl by (simp add: nth_append)
      have "?h' ! p = h ! p" using pl by (simp add: nth_append)
      from val_at_node_eq [OF cl old chp this]
      have "\<forall>k. val_at ?h' (Some p) k = val_at h (Some p) k" by blast
      with True ea have "\<forall>k. val_at ?h' (Some p) k =
          (if k = c # rest \<and> children (h ! e) \<noteq> Map.empty then Some None
           else val_at h (Some p) k)"
        by (simp only: simp_thms if_False)
      moreover have "length h < length ?h'" by simp
      moreover have "\<forall>a<length h. a \<noteq> p \<longrightarrow> ?h' ! a = h ! a"
        by (simp add: nth_append)
      ultimately show ?thesis using rl by blast
    next
      case False
      let ?h' = "assign (h @ [TrieNode (children (h ! a))]) p c (length h)"
      have rl: "Remove_loop h p (c # rest) = Some ?h'"
        using a \<open>rest = []\<close> False by (simp add: Remove_loop_Cons)
      have old: "\<forall>a<n. ?h' ! a = h ! a"
        using np pl by (simp add: nth_append)
      have hp: "?h' ! p = set_children (h ! p) ((children (h ! p))(c \<mapsto> length h))"
        using pl by (simp add: nth_assign_same nth_append)
      have hc: "?h' ! length h = TrieNode (children (h ! a))"
        using pl by simp
      have "val_at ?h' (Some p) k =
          (if k = c # rest \<and> children (h ! e) \<noteq> Map.empty then Some None
           else val_at h (Some p) k)" for k
      proof (cases k)
        case Nil
        with hp show ?thesis by simp
      next
        case k: (Cons c' r')
        show ?thesis
        proof (cases "c' = c")
          case False
          show ?thesis
          proof (cases "children (h ! p) c'")
            case None
            with False k hp show ?thesis by simp
          next
            case (Some b)
            with chp have "b < n" by blast
            from val_at_same [OF cl old this, of r'] Some False k hp
            show ?thesis by simp
          qed
        next
          case True
          have step: "val_at ?h' (Some p) (c # r') = val_at ?h' (Some (length h)) r'"
            using hp by simp
          show ?thesis
          proof (cases r')
            case Nil
            with step hc have "val_at ?h' (Some p) (c # r') = Some None" by simp
            with Nil \<open>rest = []\<close> \<open>c' = c\<close> k ea False show ?thesis by simp
          next
            case r: (Cons d r'')
            from hc have "children (?h' ! length h) = children (h ! a)" by simp
            from val_at_children_eq [OF cl old cha this, of d r'']
            have "val_at ?h' (Some (length h)) r' = val_at h (Some a) r'"
              by (simp only: r)
            with step a have "val_at ?h' (Some p) (c # r') = val_at h (Some p) (c # r')"
              by simp
            with r \<open>rest = []\<close> \<open>c' = c\<close> k show ?thesis by simp
          qed
        qed
      qed
      moreover have "length h < length ?h'" by simp
      moreover have "\<forall>a<length h. a \<noteq> p \<longrightarrow> ?h' ! a = h ! a"
        by (simp add: nth_append)
      ultimately show ?thesis using rl by blast
    qed
  next
    case False
    let ?h2 = "assign (h @ [h ! a]) p c (length h)"
    have rl: "Remove_loop h p (c # rest) = Remove_loop ?h2 (length h) rest"
      using a False by (simp add: Remove_loop_Cons)
    have old2: "\<forall>a<n. ?h2 ! a = h ! a"
      using np pl by (simp add: nth_append)
    have cur2: "?h2 ! length h = h ! a"
      using pl by simp
    have cl2: "closed n ?h2"
      using cl old2 by (simp add: closed_def)
    have pr2: "priv n ?h2 (length h)"
      unfolding priv_def
    proof (intro conjI)
      show "closed n ?h2" by (rule cl2)
      show "n \<le> length h" using np pl by simp
      show "length h < length ?h2" by simp
      show "\<forall>c b. children (?h2 ! length h) c = Some b \<longrightarrow> b < n"
        using cha by (simp only: cur2)
    qed
    from walk_node_eq [OF cl old2 cha cur2 False] walk
    have walk2: "GetTrieNode_loop ?h2 (Some (length h)) rest = Some e" by simp
    from Cons.IH [OF pr2 False walk2] obtain h' where
      r2: "Remove_loop ?h2 (length h) rest = Some h'" and len: "length ?h2 < length h'"
      and fr: "\<forall>a<length ?h2. a \<noteq> length h \<longrightarrow> h' ! a = ?h2 ! a"
      and va: "\<forall>k. val_at h' (Some (length h)) k =
        (if k = rest \<and> children (?h2 ! e) \<noteq> Map.empty then Some None
         else val_at ?h2 (Some (length h)) k)"
      by blast
    from old2 en have e2: "?h2 ! e = h ! e" by blast
    have frame: "\<forall>a<length h. a \<noteq> p \<longrightarrow> h' ! a = h ! a"
    proof (intro allI impI)
      fix x assume "x < length h" "x \<noteq> p"
      with fr have "h' ! x = ?h2 ! x" by simp
      with \<open>x < length h\<close> \<open>x \<noteq> p\<close> show "h' ! x = h ! x" by (simp add: nth_append)
    qed
    have old: "\<forall>a<n. h' ! a = h ! a"
      using frame np pl by simp
    have "h' ! p = ?h2 ! p" using fr pl by simp
    then have hp: "h' ! p = set_children (h ! p) ((children (h ! p))(c \<mapsto> length h))"
      using pl by (simp add: nth_assign_same nth_append)
    have "val_at h' (Some p) k =
        (if k = c # rest \<and> children (h ! e) \<noteq> Map.empty then Some None
         else val_at h (Some p) k)" for k
    proof (cases k)
      case Nil
      with hp show ?thesis by simp
    next
      case k: (Cons c' r')
      show ?thesis
      proof (cases "c' = c")
        case False
        show ?thesis
        proof (cases "children (h ! p) c'")
          case None
          with False k hp show ?thesis by simp
        next
          case (Some b)
          with chp have "b < n" by blast
          from val_at_same [OF cl old this, of r'] Some False k hp
          show ?thesis by simp
        qed
      next
        case True
        have step: "val_at h' (Some p) (c # r') = val_at h' (Some (length h)) r'"
          using hp by simp
        from val_at_node_eq [OF cl old2 cha cur2, of r'] a
        have "val_at ?h2 (Some (length h)) r' = val_at h (Some p) (c # r')" by simp
        with va e2 have "val_at h' (Some (length h)) r' =
          (if r' = rest \<and> children (h ! e) \<noteq> Map.empty then Some None
           else val_at h (Some p) (c # r'))"
          by (simp only:)
        with step have "val_at h' (Some p) (c # r') =
          (if r' = rest \<and> children (h ! e) \<noteq> Map.empty then Some None
           else val_at h (Some p) (c # r'))"
          by (simp only:)
        then show ?thesis
          unfolding k \<open>c' = c\<close> by (simp only: list.inject simp_thms)
      qed
    qed
    moreover have "length h < length h'" using len by simp
    ultimately show ?thesis using rl r2 frame by (simp only:) blast
  qed
qed


lemma GetTrieNode_loop_None [simp]: "GetTrieNode_loop h None key = None"
  by (cases key) simp_all

lemma Remove_noop:
  "key = [] \<or> trie_root t = None \<or> GetTrieNode h t key = None \<Longrightarrow> Remove h t key = Some (h, t)"
  by (simp add: Remove_def)

lemma Remove_clone:
  assumes wf: "wf_trie h t" and key: "key \<noteq> []" and root: "trie_root t = Some r"
    and node: "GetTrieNode h t key = Some e"
  shows "\<exists>h'. Remove h t key = Some (h', Trie (Some (length h))) \<and> length h < length h' \<and>
     wf_heap h' \<and> (\<forall>a<length h. h' ! a = h ! a) \<and>
     (\<forall>k. val_at h' (Some (length h)) k =
        (if k = key \<and> children (h ! e) \<noteq> Map.empty then Some None
         else val_at h (Some r) k))"
proof -
  let ?n = "length h"
  let ?h1 = "h @ [h ! r]"
  from wf have wfh: "wf_heap h" by (simp add: wf_trie_def)
  from wf root have rn: "r < ?n" by (simp add: wf_trie_def)
  with wfh have chr: "\<forall>c b. children (h ! r) c = Some b \<longrightarrow> b < ?n"
    by (auto dest: wf_heapD)
  have cl: "closed ?n h" using wfh by (simp add: wf_heap_closed)
  have cl1: "closed ?n ?h1" using wfh by (rule closed_append)
  have old1: "\<forall>a<?n. ?h1 ! a = h ! a" by (simp add: nth_append)
  have n1: "?h1 ! ?n = h ! r" by simp
  have pr: "priv ?n ?h1 ?n"
    unfolding priv_def
  proof (intro conjI)
    show "closed ?n ?h1" by (rule cl1)
    show "?n \<le> ?n" by simp
    show "?n < length ?h1" by simp
    show "\<forall>c b. children (?h1 ! ?n) c = Some b \<longrightarrow> b < ?n"
      using chr by (simp only: n1)
  qed
  from node root have w: "GetTrieNode_loop h (Some r) key = Some e"
    by (simp add: GetTrieNode_def)
  from walk_node_eq [OF cl old1 chr n1 key] w
  have w1: "GetTrieNode_loop ?h1 (Some ?n) key = Some e" and en: "e < ?n" by simp_all
  from Remove_loop_val_at [OF pr key w1] obtain h' where
    rl: "Remove_loop ?h1 ?n key = Some h'" and len: "length ?h1 < length h'"
    and fr: "\<forall>a<length ?h1. a \<noteq> ?n \<longrightarrow> h' ! a = ?h1 ! a"
    and va: "\<forall>k. val_at h' (Some ?n) k =
        (if k = key \<and> children (?h1 ! e) \<noteq> Map.empty then Some None
         else val_at ?h1 (Some ?n) k)"
    by blast
  have "wf_heap ?h1" using wfh chr by (intro wf_heap_alloc) simp_all
  then have wf': "wf_heap h'" using _ rl by (rule Remove_loop_wf) simp
  have frame: "\<forall>a<?n. h' ! a = h ! a"
  proof (intro allI impI)
    fix a assume "a < ?n"
    with fr have "h' ! a = ?h1 ! a" by simp
    with \<open>a < ?n\<close> show "h' ! a = h ! a" by (simp add: nth_append)
  qed
  from old1 en have e1: "?h1 ! e = h ! e" by blast
  have "val_at ?h1 (Some ?n) k = val_at h (Some r) k" for k
    by (rule val_at_node_eq [OF cl old1 chr n1])
  with va e1 have view: "\<forall>k. val_at h' (Some ?n) k =
        (if k = key \<and> children (h ! e) \<noteq> Map.empty then Some None
         else val_at h (Some r) k)"
    by simp
  have "Remove h t key = Some (h', Trie (Some ?n))"
    using key root node rl by (simp add: Remove_def alloc_def)
  moreover have "?n < length h'" using len by simp
  ultimately show ?thesis using wf' frame view by blast
qed

lemma Remove_view:
  assumes wf: "wf_trie h t"
  shows "\<exists>h' t'. Remove h t key = Some (h', t') \<and> wf_trie h' t' \<and> length h \<le> length h' \<and>
     (\<forall>a<length h. h' ! a = h ! a) \<and>
     (\<forall>k. val_at h' (trie_root t') k =
        (if k = key \<and> key \<noteq> [] \<and> has_children h t key then Some None
         else val_at h (trie_root t) k))"
proof (cases "key = [] \<or> trie_root t = None \<or> GetTrieNode h t key = None")
  case True
  then have r: "Remove h t key = Some (h, t)" by (rule Remove_noop)
  from True have "\<not> (key \<noteq> [] \<and> has_children h t key)"
    by (auto simp: has_children_def GetTrieNode_def)
  then have "\<forall>k. val_at h (trie_root t) k =
        (if k = key \<and> key \<noteq> [] \<and> has_children h t key then Some None
         else val_at h (trie_root t) k)"
    by auto
  with r wf show ?thesis by blast
next
  case False
  then obtain r e where key: "key \<noteq> []" and root: "trie_root t = Some r"
    and node: "GetTrieNode h t key = Some e"
    by auto
  from Remove_clone [OF wf key root node] obtain h' where
    rm: "Remove h t key = Some (h', Trie (Some (length h)))" and len: "length h < length h'"
    and wf': "wf_heap h'" and frame: "\<forall>a<length h. h' ! a = h ! a"
    and va: "\<forall>k. val_at h' (Some (length h)) k =
        (if k = key \<and> children (h ! e) \<noteq> Map.empty then Some None
         else val_at h (Some r) k)"
    by blast
  have hc: "has_children h t key = (children (h ! e) \<noteq> Map.empty)"
    using node by (simp add: has_children_def)
  have "wf_trie h' (Trie (Some (length h)))"
    using wf' len by (simp add: wf_trie_def)
  moreover have "length h \<le> length h'" using len by simp
  moreover have "\<forall>k. val_at h' (trie_root (Trie (Some (length h)))) k =
        (if k = key \<and> key \<noteq> [] \<and> has_children h t key then Some None
         else val_at h (trie_root t) k)"
    using va key root hc by simp
  ultimately show ?thesis using rm frame by blast
qed

lemma GetTrieNode_loop_snoc:
  "GetTrieNode_loop h cur (key @ [c]) =
     (case GetTrieNode_loop h cur key of None \<Rightarrow> None | Some e \<Rightarrow> children (h ! e) c)"
proof (induction key arbitrary: cur)
  case Nil
  show ?case by (cases cur) (simp_all split: option.split)
next
  case (Cons d key)
  show ?case
  proof (cases cur)
    case None
    then show ?thesis by simp
  next
    case (Some a)
    then show ?thesis by (simp add: Cons.IH split: option.split)
  qed
qed

lemma has_children_iff:
  "has_children h t key = (\<exists>c. val_at h (trie_root t) (key @ [c]) \<noteq> None)"
proof (cases "GetTrieNode_loop h (trie_root t) key")
  case None
  then show ?thesis
    by (simp add: has_children_def GetTrieNode_def val_at_def GetTrieNode_loop_snoc)
next
  case (Some e)
  have "(children (h ! e) \<noteq> Map.empty) = (\<exists>c. children (h ! e) c \<noteq> None)"
    by (auto simp: fun_eq_iff)
  with Some show ?thesis
    by (simp add: has_children_def GetTrieNode_def val_at_def GetTrieNode_loop_snoc)
qed

subsection \<open>The walk as a relation\<close>

lemma walk_GetTrieNode_loop:
  "walk h a key e \<Longrightarrow> GetTrieNode_loop h (Some a) key = Some e"
  by (induction rule: walk.induct) simp_all

lemma GetTrieNode_loop_walk:
  "GetTrieNode_loop h (Some a) key = Some e \<Longrightarrow> walk h a key e"
proof (induction key arbitrary: a)
  case Nil
  then show ?case by (simp add: walk_Nil)
next
  case (Cons c cs)
  from Cons.prems obtain b where b: "children (h ! a) c = Some b"
    and "GetTrieNode_loop h (Some b) cs = Some e"
    by (auto split: option.splits)
  then have "walk h b cs e" by (intro Cons.IH)
  with b show ?case by (rule walk_Cons)
qed

subsection \<open>What Put and Remove leave\<close>

lemma struct_equiv_refl: "struct_equiv h t h t"
  by (simp add: struct_equiv_def)

lemma Put_no_children:
  assumes "wf_trie h t" and "key \<noteq> []"
  shows "\<not> has_children (fst (Put h t key v)) (snd (Put h t key v)) key"
proof -
  have "val_at (fst (Put h t key v)) (trie_root (snd (Put h t key v))) (key @ [c]) = None" for c
    using Put_val_at [OF assms, of v "key @ [c]"] by (simp add: strict_prefix_def)
  then show ?thesis by (simp add: has_children_iff)
qed

lemma Remove_Get:
  assumes "wf_trie h t"
  shows "\<exists>h' t'. Remove h t key = Some (h', t') \<and>
     (\<forall>T k. Get h' t' T k =
        (if k = key \<and> key \<noteq> [] \<and> has_children h t key then None else Get h t T k))"
proof -
  from Remove_view [OF assms, of key] obtain h' t' where
    r: "Remove h t key = Some (h', t')"
    and v: "\<forall>k. val_at h' (trie_root t') k =
        (if k = key \<and> key \<noteq> [] \<and> has_children h t key then Some None
         else val_at h (trie_root t) k)"
    by blast
  from v have "\<forall>T k. Get h' t' T k =
        (if k = key \<and> key \<noteq> [] \<and> has_children h t key then None else Get h t T k)"
    by (simp add: Get_val_at)
  with r show ?thesis by blast
qed

lemma Put_Remove_keeps_value:
  assumes "wf_trie h t" and "key \<noteq> []"
  shows "\<exists>h1 t1. Remove (fst (Put h t key v)) (snd (Put h t key v)) key = Some (h1, t1) \<and>
     Get h1 t1 (type_of v) key = Some v"
proof -
  let ?h = "fst (Put h t key v)" and ?t = "snd (Put h t key v)"
  have "wf_trie ?h ?t" using assms(1) by (rule Put_wf)
  from Remove_view [OF this, of key] obtain h1 t1 where
    r: "Remove ?h ?t key = Some (h1, t1)"
    and va: "\<forall>k. val_at h1 (trie_root t1) k =
        (if k = key \<and> key \<noteq> [] \<and> has_children ?h ?t key then Some None
         else val_at ?h (trie_root ?t) k)"
    by blast
  from va Put_no_children [OF assms, of v]
  have "val_at h1 (trie_root t1) key = val_at ?h (trie_root ?t) key" by simp
  also have "\<dots> = Some (Some v)" using Put_val_at [OF assms, of v key] by simp
  finally have "Get h1 t1 (type_of v) key = Some v" by (simp add: Get_val_at)
  with r show ?thesis by blast
qed

lemma Put_loop_terminal:
  "p < length h \<Longrightarrow> key \<noteq> [] \<Longrightarrow>
   \<exists>e. GetTrieNode_loop (Put_loop h p key v) (Some p) key = Some e \<and> length h \<le> e"
proof (induction key arbitrary: h p)
  case Nil
  then show ?case by simp
next
  case (Cons c rest)
  let ?h2 = "assign (h @ [Put_node h p c rest v]) p c (length h)"
  have hp: "children (Put_loop h p (c # rest) v ! p) c = Some (length h)"
    using Put_loop_nth_prev [OF Cons.prems(1), of c rest v] by simp
  show ?case
  proof (cases "rest = []")
    case True
    with hp show ?thesis by simp
  next
    case False
    have "length h < length ?h2" by simp
    from Cons.IH [OF this False] obtain e where
      "GetTrieNode_loop (Put_loop ?h2 (length h) rest v) (Some (length h)) rest = Some e"
      and "length ?h2 \<le> e"
      by blast
    then have "GetTrieNode_loop (Put_loop h p (c # rest) v) (Some (length h)) rest = Some e"
      and "length h \<le> e"
      by (simp_all add: Put_loop_Cons)
    with hp show ?thesis by simp
  qed
qed

lemma Put_terminal:
  assumes "key \<noteq> []"
  shows "\<exists>e. GetTrieNode (fst (Put h t key v)) (snd (Put h t key v)) key = Some e \<and> length h \<le> e"
proof -
  let ?h1 = "h @ [case trie_root t of Some r \<Rightarrow> h ! r | None \<Rightarrow> TrieNode Map.empty]"
  have "length h < length ?h1" by simp
  from Put_loop_terminal [OF this assms, of v] obtain e where
    "GetTrieNode_loop (Put_loop ?h1 (length h) key v) (Some (length h)) key = Some e"
    and "length ?h1 \<le> e"
    by blast
  with assms show ?thesis by (simp add: Put_nonempty GetTrieNode_def)
qed

lemma Put_value_node:
  assumes "wf_trie h t" and "key \<noteq> []"
  shows "\<exists>e. GetTrieNode (fst (Put h t key v)) (snd (Put h t key v)) key = Some e \<and> length h \<le> e \<and>
     fst (Put h t key v) ! e = TrieNodeWithValue Map.empty v"
proof -
  let ?h = "fst (Put h t key v)" and ?t = "snd (Put h t key v)"
  from Put_terminal [OF assms(2), of h t v] obtain e where
    e: "GetTrieNode ?h ?t key = Some e" and fresh: "length h \<le> e"
    by blast
  have "val_at ?h (trie_root ?t) key = Some (Some v)"
    using Put_val_at [OF assms, of v key] by simp
  with e have "value_of (?h ! e) = Some v" by (simp add: val_at_def GetTrieNode_def)
  then obtain m where m: "?h ! e = TrieNodeWithValue m v" by (cases "?h ! e") simp_all
  from Put_no_children [OF assms, of v] e have "children (?h ! e) = Map.empty"
    by (simp add: has_children_def)
  with m have "?h ! e = TrieNodeWithValue Map.empty v" by simp
  with e fresh show ?thesis by blast
qed

subsection \<open>The example trie\<close>

lemma wf_empty: "wf_trie [] (Trie None)"
  by (simp add: wf_trie_def wf_heap_def)

lemma Put_ab: "Put [] (Trie None) ''ab'' (V_uint32 1) = (heap_ab, trie_ab)"
  by (simp add: Put_def alloc_def Put_loop_Cons Put_node_def assign_def heap_ab_def trie_ab_def
      numeral_2_eq_2)

lemma wf_ab: "wf_trie heap_ab trie_ab"
  using Put_wf [OF wf_empty, of "''ab''" "V_uint32 1 :: unit val"] by (simp add: Put_ab)

lemma Get_ab: "Get heap_ab trie_ab T_uint32 ''ab'' = Some (V_uint32 1)"
  by (simp add: Get_def GetTrieNode_def heap_ab_def trie_ab_def)

lemma Remove_ab: "Remove heap_ab trie_ab ''ab'' = Some (heap_ab_removed, Trie (Some 3))"
  by (simp add: Remove_def GetTrieNode_def alloc_def Remove_loop_Cons assign_def heap_ab_def
      trie_ab_def heap_ab_removed_def eval_nat_numeral)

lemma Remove_a: "Remove heap_ab trie_ab ''a'' = Some (heap_a_removed, Trie (Some 3))"
  by (simp add: Remove_def GetTrieNode_def alloc_def Remove_loop_Cons assign_def heap_ab_def
      trie_ab_def heap_a_removed_def eval_nat_numeral)

lemma Put_a_ab:
  "Put (fst (Put [] (Trie None) ''a'' (V_uint32 1))) (snd (Put [] (Trie None) ''a'' (V_uint32 1)))
     ''ab'' (V_uint32 2) = (heap_a_ab, trie_a_ab)"
  by (simp add: Put_def alloc_def Put_loop_Cons Put_node_def assign_def heap_a_ab_def trie_a_ab_def
      eval_nat_numeral)

lemma wf_a_ab: "wf_trie heap_a_ab trie_a_ab"
proof -
  have "wf_trie (fst (Put [] (Trie None) ''a'' (V_uint32 1 :: unit val)))
     (snd (Put [] (Trie None) ''a'' (V_uint32 1 :: unit val)))"
    using wf_empty by (rule Put_wf)
  then have "wf_trie
     (fst (Put (fst (Put [] (Trie None) ''a'' (V_uint32 1 :: unit val)))
        (snd (Put [] (Trie None) ''a'' (V_uint32 1 :: unit val))) ''ab'' (V_uint32 2)))
     (snd (Put (fst (Put [] (Trie None) ''a'' (V_uint32 1 :: unit val)))
        (snd (Put [] (Trie None) ''a'' (V_uint32 1 :: unit val))) ''ab'' (V_uint32 2)))"
    by (rule Put_wf)
  then show ?thesis by (simp only: Put_a_ab fst_conv snd_conv)
qed

section \<open>The claims\<close>

text \<open>
  Claim C1 says that after \<open>Put(k, v)\<close> and \<open>Remove(k)\<close> the key is absent. The code
  does otherwise: the node \<open>Put\<close> makes for the key is a leaf, so the replacement that
  \<open>Remove\<close> builds has no children and is not written into the cloned parent, whose
  entry still points at the old node with its value. On \<open>Trie().Put("ab", 1)\<close>,
  \<open>Remove("ab")\<close> returns a trie on which \<open>Get<uint32_t>("ab")\<close> is still 1. (Lemma
  \<open>Put_Remove_keeps_value\<close> has it for every trie, non-empty key and value.)
\<close>

theorem Put_Remove_Get_still_present:
  "Put [] (Trie None) ''ab'' (V_uint32 1) = (heap_ab, trie_ab) \<and>
   Remove heap_ab trie_ab ''ab'' = Some (heap_ab_removed, Trie (Some 3)) \<and>
   Get heap_ab_removed (Trie (Some 3)) T_uint32 ''ab'' = Some (V_uint32 1)"
proof -
  have "Get heap_ab_removed (Trie (Some 3)) T_uint32 ''ab'' = Some (V_uint32 1)"
    by (simp add: Get_def GetTrieNode_def heap_ab_removed_def heap_ab_def eval_nat_numeral)
  then show ?thesis by (simp only: Put_ab Remove_ab simp_thms)
qed

text \<open>
  Claim C2 says that the cloned parent has no entry for the last symbol when the
  replacement node has no children, and that \<open>Remove("ab")\<close> leaves no node for \<open>"a"\<close>
  when \<open>"ab"\<close> was its only child. The code does otherwise on the example: the clone
  of the node of \<open>"a"\<close> (node 4) is reachable and its entry for \<open>b\<close> still points at
  the old leaf (node 2, with the value 1), which stays reachable under \<open>"ab"\<close>.
\<close>

theorem Remove_leaf_keeps_entry:
  "Remove heap_ab trie_ab ''ab'' = Some (heap_ab_removed, Trie (Some 3)) \<and>
   GetTrieNode heap_ab_removed (Trie (Some 3)) ''a'' = Some 4 \<and>
   children (heap_ab_removed ! 4) CHR ''b'' = Some 2 \<and>
   heap_ab_removed ! 2 = TrieNodeWithValue Map.empty (V_uint32 1) \<and>
   GetTrieNode heap_ab_removed (Trie (Some 3)) ''ab'' = Some 2"
proof -
  have "GetTrieNode heap_ab_removed (Trie (Some 3)) ''a'' = Some 4"
    "children (heap_ab_removed ! 4) CHR ''b'' = Some 2"
    "heap_ab_removed ! 2 = TrieNodeWithValue Map.empty (V_uint32 1)"
    "GetTrieNode heap_ab_removed (Trie (Some 3)) ''ab'' = Some 2"
    by (simp_all add: GetTrieNode_def heap_ab_removed_def heap_ab_def eval_nat_numeral)
  then show ?thesis by (simp only: Remove_ab simp_thms)
qed

text \<open>
  Claim C3 (round trip). For every well-formed trie, every non-empty key and every
  value \<open>v\<close> of type \<open>T\<close>, \<open>Get<T>\<close> of the key on the trie that \<open>Put\<close> returns
  gives the stored value \<open>v\<close>.
\<close>

theorem Put_Get_roundtrip:
  assumes "wf_trie h t" and "key \<noteq> []"
  shows "Get (fst (Put h t key v)) (snd (Put h t key v)) (type_of v) key = Some v"
  using Put_val_at [OF assms, of v key] by (simp add: Get_val_at)

theorem Put_Get_roundtrip_witness:
  "wf_trie heap_ab trie_ab \<and> ''ab'' \<noteq> [] \<and>
   Get heap_ab trie_ab T_uint64 ''ab'' = None \<and>
   Get (fst (Put heap_ab trie_ab ''ab'' (V_uint64 5))) (snd (Put heap_ab trie_ab ''ab'' (V_uint64 5)))
     T_uint64 ''ab'' = Some (V_uint64 5)"
proof -
  have w: "wf_trie heap_ab trie_ab" by (rule wf_ab)
  have k: "''ab'' \<noteq> []" by simp
  have g: "Get heap_ab trie_ab T_uint64 ''ab'' = None"
    by (simp add: Get_def GetTrieNode_def heap_ab_def trie_ab_def)
  have r: "Get (fst (Put heap_ab trie_ab ''ab'' (V_uint64 5))) (snd (Put heap_ab trie_ab ''ab'' (V_uint64 5)))
     T_uint64 ''ab'' = Some (V_uint64 5)"
    using Put_Get_roundtrip [OF w k, of "V_uint64 5"] by (simp only: type_of.simps)
  show ?thesis by (intro conjI w k g r)
qed

text \<open>
  Claim C4 (persistence). After \<open>t2 = t1.Put(key, v)\<close> the old handle \<open>t1\<close>, read in
  the store that \<open>Put\<close> leaves behind, shows what it showed before: the same node and
  value under every key, hence the same result of \<open>Get<T>\<close> for every key and type.
\<close>

theorem Put_keeps_old_snapshot:
  assumes "wf_trie h t1"
  shows "struct_equiv h t1 (fst (Put h t1 key v)) t1 \<and>
         Get (fst (Put h t1 key v)) t1 T k' = Get h t1 T k'"
proof -
  let ?h' = "fst (Put h t1 key v)"
  have same: "val_at ?h' (trie_root t1) k = val_at h (trie_root t1) k" for k
  proof (cases "trie_root t1")
    case None
    then show ?thesis by simp
  next
    case (Some r)
    with assms have r: "r < length h" and cl: "closed (length h) h"
      by (simp_all add: wf_trie_def wf_heap_closed)
    have old: "\<forall>a<length h. ?h' ! a = h ! a" by (simp add: Put_frame)
    from val_at_same [OF cl old r, of k] Some show ?thesis by simp
  qed
  then show ?thesis by (simp add: struct_equiv_def Get_val_at)
qed

theorem Put_keeps_old_snapshot_witness:
  "wf_trie heap_ab trie_ab \<and>
   struct_equiv heap_ab trie_ab (fst (Put heap_ab trie_ab ''ab'' (V_uint32 9))) trie_ab \<and>
   Get (fst (Put heap_ab trie_ab ''ab'' (V_uint32 9))) trie_ab T_uint32 ''ab'' = Some (V_uint32 1) \<and>
   Get (fst (Put heap_ab trie_ab ''ab'' (V_uint32 9))) (snd (Put heap_ab trie_ab ''ab'' (V_uint32 9)))
     T_uint32 ''ab'' = Some (V_uint32 9)"
proof -
  have w: "wf_trie heap_ab trie_ab" by (rule wf_ab)
  have n: "Get (fst (Put heap_ab trie_ab ''ab'' (V_uint32 9))) (snd (Put heap_ab trie_ab ''ab'' (V_uint32 9)))
     T_uint32 ''ab'' = Some (V_uint32 9)"
    by (simp add: Put_def alloc_def Put_loop_Cons Put_node_def assign_def heap_ab_def trie_ab_def
      Get_def GetTrieNode_def)
  from Put_keeps_old_snapshot [OF w, of "''ab''" "V_uint32 9" T_uint32 "''ab''"] w n show ?thesis
    by (simp only: Get_ab simp_thms)
qed

text \<open>
  Claim C5 (Get). \<open>Get<T>(key)\<close> returns a value \<open>v\<close> exactly when the trie has a
  root, every symbol of the key has a child along the walk from the root, the walk ends
  on a \<open>TrieNodeWithValue\<close> holding \<open>v\<close>, and \<open>v\<close> has the type \<open>T\<close>; in every other
  case it returns absent. (\<open>Get\<close> is a total function: it has no failing case.)
\<close>

theorem Get_iff_walk:
  "((Get h t T key = Some v) =
     (\<exists>r e m. trie_root t = Some r \<and> walk h r key e \<and> h ! e = TrieNodeWithValue m v \<and> type_of v = T)) \<and>
   ((Get h t T key = None) =
     (\<not> (\<exists>r e m v. trie_root t = Some r \<and> walk h r key e \<and> h ! e = TrieNodeWithValue m v \<and> type_of v = T)))"
proof -
  have some: "(Get h t T key = Some v) =
     (\<exists>r e m. trie_root t = Some r \<and> walk h r key e \<and> h ! e = TrieNodeWithValue m v \<and> type_of v = T)"
    for v
  proof
    assume g: "Get h t T key = Some v"
    then obtain e where e: "GetTrieNode_loop h (trie_root t) key = Some e"
      by (auto simp: Get_def GetTrieNode_def split: option.splits)
    then obtain r where r: "trie_root t = Some r" by (cases "trie_root t") simp_all
    with e have "walk h r key e" by (simp add: GetTrieNode_loop_walk)
    moreover from g e obtain m where "h ! e = TrieNodeWithValue m v" "type_of v = T"
      by (auto simp: Get_def GetTrieNode_def split: node.splits if_splits)
    ultimately show "\<exists>r e m. trie_root t = Some r \<and> walk h r key e \<and>
        h ! e = TrieNodeWithValue m v \<and> type_of v = T"
      using r by blast
  next
    assume "\<exists>r e m. trie_root t = Some r \<and> walk h r key e \<and>
        h ! e = TrieNodeWithValue m v \<and> type_of v = T"
    then obtain r e m where "trie_root t = Some r" "walk h r key e"
      "h ! e = TrieNodeWithValue m v" "type_of v = T"
      by blast
    then show "Get h t T key = Some v"
      by (simp add: Get_def GetTrieNode_def walk_GetTrieNode_loop)
  qed
  have "(Get h t T key = None) = (\<forall>v. Get h t T key \<noteq> Some v)" by auto
  also have "\<dots> = (\<not> (\<exists>r e m v. trie_root t = Some r \<and> walk h r key e \<and>
      h ! e = TrieNodeWithValue m v \<and> type_of v = T))"
    unfolding some by blast
  finally show ?thesis using some by blast
qed

text \<open>
  Claim C6 (empty key). \<open>Put\<close> with the empty key allocates nothing and returns a
  trie with the receiver's root; the result is structurally equal to the receiver and
  \<open>Get\<close> gives the same result for every key and type, the empty key included.
\<close>

theorem Put_empty_key:
  "Put h t [] v = (h, Trie (trie_root t)) \<and>
   struct_equiv h t (fst (Put h t [] v)) (snd (Put h t [] v)) \<and>
   Get (fst (Put h t [] v)) (snd (Put h t [] v)) T k = Get h t T k"
  by (simp add: Put_def struct_equiv_def)

text \<open>
  Claim C7, amended. On a well-formed trie \<open>Remove\<close> returns. It takes the no-op path
  (the store untouched and the receiver's own root returned, so the result is the
  receiver) exactly when the key is empty, the trie has no root, or \<open>GetTrieNode\<close>
  finds no node for the key. In every other case it returns a new root; every key other
  than the removed one then shows what it showed before, and when the node of the key
  has children the key shows a node without a value. So a trie structurally equal to
  the receiver is returned outside the three cases too, whenever the node of the key has
  children and holds no value.
\<close>

theorem Remove_noop_iff:
  assumes "wf_trie h t"
  shows "\<exists>h' t'. Remove h t key = Some (h', t') \<and>
     ((h' = h \<and> t' = t) =
        (key = [] \<or> trie_root t = None \<or> GetTrieNode h t key = None)) \<and>
     ((trie_root t' = trie_root t) =
        (key = [] \<or> trie_root t = None \<or> GetTrieNode h t key = None)) \<and>
     (\<forall>k. k \<noteq> key \<longrightarrow> val_at h' (trie_root t') k = val_at h (trie_root t) k) \<and>
     (key \<noteq> [] \<and> has_children h t key \<longrightarrow> val_at h' (trie_root t') key = Some None) \<and>
     (has_children h t key \<and> val_at h (trie_root t) key = Some None \<longrightarrow> struct_equiv h t h' t')"
proof -
  from Remove_view [OF assms, of key] obtain h' t' where
    r: "Remove h t key = Some (h', t')"
    and v: "\<forall>k. val_at h' (trie_root t') k =
        (if k = key \<and> key \<noteq> [] \<and> has_children h t key then Some None
         else val_at h (trie_root t) k)"
    by blast
  have other: "\<forall>k. k \<noteq> key \<longrightarrow> val_at h' (trie_root t') k = val_at h (trie_root t) k"
    using v by simp
  have wiped: "key \<noteq> [] \<and> has_children h t key \<longrightarrow> val_at h' (trie_root t') key = Some None"
    using v by simp
  have equiv: "has_children h t key \<and> val_at h (trie_root t) key = Some None \<longrightarrow>
      struct_equiv h t h' t'"
  proof
    assume a: "has_children h t key \<and> val_at h (trie_root t) key = Some None"
    have "val_at h (trie_root t) k = val_at h' (trie_root t') k" for k
    proof (cases "k = key")
      case True
      from v have "val_at h' (trie_root t') key =
          (if key = key \<and> key \<noteq> [] \<and> has_children h t key then Some None
           else val_at h (trie_root t) key)"
        by (rule spec)
      moreover from a have "val_at h (trie_root t) key = Some None" by (rule conjunct2)
      ultimately have "val_at h' (trie_root t') key = val_at h (trie_root t) key"
        by (simp only: if_cancel)
      with True show ?thesis by (simp only:)
    next
      case False
      with other show ?thesis by simp
    qed
    then show "struct_equiv h t h' t'" by (simp only: struct_equiv_def) simp
  qed
  have ident: "((h' = h \<and> t' = t) =
        (key = [] \<or> trie_root t = None \<or> GetTrieNode h t key = None)) \<and>
     ((trie_root t' = trie_root t) =
        (key = [] \<or> trie_root t = None \<or> GetTrieNode h t key = None))"
  proof (cases "key = [] \<or> trie_root t = None \<or> GetTrieNode h t key = None")
    case True
    then have "Remove h t key = Some (h, t)" by (rule Remove_noop)
    with r True show ?thesis by simp
  next
    case False
    then obtain a e where key: "key \<noteq> []" and root: "trie_root t = Some a"
      and node: "GetTrieNode h t key = Some e"
      by auto
    from Remove_clone [OF assms key root node] obtain h2 where
      rm: "Remove h t key = Some (h2, Trie (Some (length h)))" and len: "length h < length h2"
      by blast
    from assms root have "a < length h" by (simp add: wf_trie_def)
    with root have "trie_root (Trie (Some (length h))) \<noteq> trie_root t" by simp
    moreover from len have "h2 \<noteq> h" by auto
    moreover from rm r have "h' = h2" "t' = Trie (Some (length h))" by simp_all
    ultimately show ?thesis using False by simp
  qed
  show ?thesis
    by (intro exI conjI) (rule r, rule conjunct1 [OF ident], rule conjunct2 [OF ident],
      rule other, rule wiped, rule equiv)
qed

theorem Remove_noop_iff_witness:
  "wf_trie heap_a_ab trie_a_ab \<and>
   GetTrieNode heap_a_ab trie_a_ab ''zz'' = None \<and>
   Remove heap_a_ab trie_a_ab ''zz'' = Some (heap_a_ab, trie_a_ab) \<and>
   ''a'' \<noteq> [] \<and> has_children heap_a_ab trie_a_ab ''a'' \<and>
   val_at heap_a_ab (trie_root trie_a_ab) ''a'' = Some (Some (V_uint32 1)) \<and>
   (\<exists>h' t'. Remove heap_a_ab trie_a_ab ''a'' = Some (h', t') \<and>
      trie_root t' \<noteq> trie_root trie_a_ab \<and>
      val_at h' (trie_root t') ''a'' = Some None \<and>
      val_at h' (trie_root t') ''ab'' = Some (Some (V_uint32 2)))"
proof -
  have w: "wf_trie heap_a_ab trie_a_ab" by (rule wf_a_ab)
  have n: "GetTrieNode heap_a_ab trie_a_ab ''zz'' = None"
    by (simp add: GetTrieNode_def heap_a_ab_def trie_a_ab_def)
  have a: "GetTrieNode heap_a_ab trie_a_ab ''a'' = Some 3" "trie_root trie_a_ab = Some 2"
    by (simp_all add: GetTrieNode_def heap_a_ab_def trie_a_ab_def eval_nat_numeral)
  have hc: "has_children heap_a_ab trie_a_ab ''a''"
    by (simp add: has_children_def GetTrieNode_def heap_a_ab_def trie_a_ab_def eval_nat_numeral)
  have v: "val_at heap_a_ab (trie_root trie_a_ab) ''a'' = Some (Some (V_uint32 1))"
    "val_at heap_a_ab (trie_root trie_a_ab) ''ab'' = Some (Some (V_uint32 2))"
    by (simp_all add: heap_a_ab_def trie_a_ab_def eval_nat_numeral)
  from Remove_noop_iff [OF w, of "''zz''"] obtain h0 t0 where
    "Remove heap_a_ab trie_a_ab ''zz'' = Some (h0, t0)"
    and "(h0 = heap_a_ab \<and> t0 = trie_a_ab) =
        (''zz'' = [] \<or> trie_root trie_a_ab = None \<or> GetTrieNode heap_a_ab trie_a_ab ''zz'' = None)"
    by (elim exE conjE)
  with n have z: "Remove heap_a_ab trie_a_ab ''zz'' = Some (heap_a_ab, trie_a_ab)" by simp
  from Remove_noop_iff [OF w, of "''a''"] obtain h' t' where
    r: "Remove heap_a_ab trie_a_ab ''a'' = Some (h', t')"
    and i: "(trie_root t' = trie_root trie_a_ab) =
        (''a'' = [] \<or> trie_root trie_a_ab = None \<or> GetTrieNode heap_a_ab trie_a_ab ''a'' = None)"
    and o: "\<forall>k. k \<noteq> ''a'' \<longrightarrow> val_at h' (trie_root t') k = val_at heap_a_ab (trie_root trie_a_ab) k"
    and x: "''a'' \<noteq> [] \<and> has_children heap_a_ab trie_a_ab ''a'' \<longrightarrow>
        val_at h' (trie_root t') ''a'' = Some None"
    by (elim exE conjE)
  from i a have "trie_root t' \<noteq> trie_root trie_a_ab" by simp
  moreover from x hc have "val_at h' (trie_root t') ''a'' = Some None" by simp
  moreover have "''ab'' \<noteq> ''a''" by simp
  with o have "val_at h' (trie_root t') ''ab'' = val_at heap_a_ab (trie_root trie_a_ab) ''ab''"
    by blast
  with v(2) have "val_at h' (trie_root t') ''ab'' = Some (Some (V_uint32 2))" by (simp only:)
  ultimately have "\<exists>h' t'. Remove heap_a_ab trie_a_ab ''a'' = Some (h', t') \<and>
      trie_root t' \<noteq> trie_root trie_a_ab \<and>
      val_at h' (trie_root t') ''a'' = Some None \<and>
      val_at h' (trie_root t') ''ab'' = Some (Some (V_uint32 2))"
    using r by blast
  with w n z hc v(1) show ?thesis by (intro conjI) simp_all
qed

text \<open>
  Claim C7 as stated has \<open>Remove\<close> return a structurally equal trie in the three cases
  only. On the first example \<open>Remove("a")\<close> is in none of them (the key is not empty,
  the trie has a root and \<open>"a"\<close> has a node), yet the trie it returns is structurally
  equal to the receiver: the node of \<open>"a"\<close> held no value.
\<close>

theorem Remove_valueless_node_struct_equiv:
  "''a'' \<noteq> [] \<and> trie_root trie_ab \<noteq> None \<and> GetTrieNode heap_ab trie_ab ''a'' \<noteq> None \<and>
   Remove heap_ab trie_ab ''a'' = Some (heap_a_removed, Trie (Some 3)) \<and>
   struct_equiv heap_ab trie_ab heap_a_removed (Trie (Some 3))"
proof -
  have g: "GetTrieNode heap_ab trie_ab ''a'' \<noteq> None" "trie_root trie_ab \<noteq> None"
    by (simp_all add: GetTrieNode_def heap_ab_def trie_ab_def)
  have v: "val_at heap_ab (trie_root trie_ab) ''a'' = Some None"
    by (simp add: heap_ab_def trie_ab_def)
  from Remove_view [OF wf_ab, of "''a''"]
  have "\<forall>k. val_at heap_a_removed (trie_root (Trie (Some 3))) k =
        (if k = ''a'' \<and> ''a'' \<noteq> [] \<and> has_children heap_ab trie_ab ''a'' then Some None
         else val_at heap_ab (trie_root trie_ab) k)"
    by (simp only: Remove_a) blast
  with v have "\<forall>k. val_at heap_a_removed (trie_root (Trie (Some 3))) k =
      val_at heap_ab (trie_root trie_ab) k"
    by (metis (full_types))
  then have "struct_equiv heap_ab trie_ab heap_a_removed (Trie (Some 3))"
    by (simp only: struct_equiv_def) simp
  with g show ?thesis by (simp only: Remove_a simp_thms) simp
qed

text \<open>
  Claim C8 (Put overwrites the subtree). After \<open>Put\<close> with a non-empty key the key
  leads to a node that \<open>Put\<close> allocated (its address is not one of the old store),
  and this node is a \<open>TrieNodeWithValue\<close> holding the value and no children; so
  \<open>Get\<close> is absent on every key that properly extends the key, whatever the trie
  stored there before.
\<close>

theorem Put_discards_descendants:
  assumes "wf_trie h t" and "key \<noteq> []" and "strict_prefix key k'"
  shows "(\<exists>e. GetTrieNode (fst (Put h t key v)) (snd (Put h t key v)) key = Some e \<and>
            length h \<le> e \<and> fst (Put h t key v) ! e = TrieNodeWithValue Map.empty v) \<and>
         \<not> has_children (fst (Put h t key v)) (snd (Put h t key v)) key \<and>
         Get (fst (Put h t key v)) (snd (Put h t key v)) T k' = None"
proof -
  have "\<not> has_children (fst (Put h t key v)) (snd (Put h t key v)) key"
    using assms(1,2) by (rule Put_no_children)
  moreover from assms(3) have "k' \<noteq> key" by auto
  with Put_val_at [OF assms(1,2), of v k'] assms(3)
  have "Get (fst (Put h t key v)) (snd (Put h t key v)) T k' = None"
    by (simp add: Get_val_at)
  ultimately show ?thesis using Put_value_node [OF assms(1,2), of v] by simp
qed

theorem Put_discards_descendants_witness:
  "wf_trie heap_ab trie_ab \<and> ''a'' \<noteq> [] \<and> strict_prefix ''a'' ''ab'' \<and>
   Get heap_ab trie_ab T_uint32 ''ab'' = Some (V_uint32 1) \<and>
   GetTrieNode (fst (Put heap_ab trie_ab ''a'' (V_string ''x''))) (snd (Put heap_ab trie_ab ''a'' (V_string ''x''))) ''a'' = Some 4 \<and>
   fst (Put heap_ab trie_ab ''a'' (V_string ''x'')) ! 4 = TrieNodeWithValue Map.empty (V_string ''x'') \<and>
   \<not> has_children (fst (Put heap_ab trie_ab ''a'' (V_string ''x''))) (snd (Put heap_ab trie_ab ''a'' (V_string ''x''))) ''a'' \<and>
   Get (fst (Put heap_ab trie_ab ''a'' (V_string ''x''))) (snd (Put heap_ab trie_ab ''a'' (V_string ''x'')))
     T_uint32 ''ab'' = None"
proof -
  have w: "wf_trie heap_ab trie_ab" by (rule wf_ab)
  have k: "''a'' \<noteq> []" "strict_prefix ''a'' ''ab''" by simp_all
  have n: "GetTrieNode (fst (Put heap_ab trie_ab ''a'' (V_string ''x''))) (snd (Put heap_ab trie_ab ''a'' (V_string ''x''))) ''a'' = Some 4"
    "fst (Put heap_ab trie_ab ''a'' (V_string ''x'')) ! 4 = TrieNodeWithValue Map.empty (V_string ''x'')"
    by (simp_all add: Put_def alloc_def Put_loop_Cons Put_node_def assign_def heap_ab_def trie_ab_def
      GetTrieNode_def eval_nat_numeral)
  from Put_discards_descendants [OF w k, of "V_string ''x''" T_uint32] w k Get_ab n show ?thesis
    by (simp only: simp_thms)
qed

text \<open>
  Claim C9 (Remove is idempotent). On a well-formed trie both calls of
  \<open>t.Remove(key).Remove(key)\<close> return, and the trie of the second is structurally equal
  to the trie of the first; \<open>Get\<close> gives the same result on both for every key and
  type.
\<close>

theorem Remove_idempotent:
  assumes "wf_trie h t"
  shows "\<exists>h1 t1 h2 t2. Remove h t key = Some (h1, t1) \<and> Remove h1 t1 key = Some (h2, t2) \<and>
     struct_equiv h1 t1 h2 t2 \<and> (\<forall>T k. Get h2 t2 T k = Get h1 t1 T k)"
proof -
  from Remove_view [OF assms, of key] obtain h1 t1 where
    r1: "Remove h t key = Some (h1, t1)" and wf1: "wf_trie h1 t1"
    and v1: "\<forall>k. val_at h1 (trie_root t1) k =
        (if k = key \<and> key \<noteq> [] \<and> has_children h t key then Some None
         else val_at h (trie_root t) k)"
    by blast
  from Remove_view [OF wf1, of key] obtain h2 t2 where
    r2: "Remove h1 t1 key = Some (h2, t2)"
    and v2: "\<forall>k. val_at h2 (trie_root t2) k =
        (if k = key \<and> key \<noteq> [] \<and> has_children h1 t1 key then Some None
         else val_at h1 (trie_root t1) k)"
    by blast
  have "val_at h1 (trie_root t1) (key @ [c]) = val_at h (trie_root t) (key @ [c])" for c
    using v1 by simp
  then have hc: "has_children h1 t1 key = has_children h t key"
    by (simp add: has_children_iff)
  have same: "val_at h2 (trie_root t2) k = val_at h1 (trie_root t1) k" for k
    using v1 v2 hc by simp
  then have "struct_equiv h1 t1 h2 t2" by (simp add: struct_equiv_def)
  moreover from same have "\<forall>T k. Get h2 t2 T k = Get h1 t1 T k" by (simp add: Get_val_at)
  ultimately show ?thesis using r1 r2 by blast
qed

theorem Remove_idempotent_witness:
  "wf_trie heap_ab trie_ab \<and>
   (\<exists>h1 t1 h2 t2. Remove heap_ab trie_ab ''a'' = Some (h1, t1) \<and> Remove h1 t1 ''a'' = Some (h2, t2) \<and>
     struct_equiv h1 t1 h2 t2 \<and> (\<forall>T k. Get h2 t2 T k = Get h1 t1 T k))"
  using Remove_idempotent [OF wf_ab, of "''a''"] wf_ab by (intro conjI)

text \<open>
  Claim C10 (frame of Put). For a non-empty key \<open>key\<close> and every key \<open>k'\<close> that is
  neither \<open>key\<close> nor a proper extension of it (proper prefixes of \<open>key\<close> included),
  \<open>Get<T>\<close> of \<open>k'\<close> gives on the new trie what it gave on the old one.
\<close>

theorem Put_frame_other_keys:
  assumes "wf_trie h t" and "key \<noteq> []" and "k' \<noteq> key" and "\<not> strict_prefix key k'"
  shows "Get (fst (Put h t key v)) (snd (Put h t key v)) T k' = Get h t T k'"
proof (cases "val_at h (trie_root t) k'")
  case None
  with Put_val_at [OF assms(1,2), of v k'] assms(3,4) show ?thesis
    by (simp add: Get_val_at)
next
  case (Some x)
  with Put_val_at [OF assms(1,2), of v k'] assms(3,4) show ?thesis
    by (simp add: Get_val_at)
qed

theorem Put_frame_other_keys_witness:
  "wf_trie heap_ab trie_ab \<and> ''abc'' \<noteq> [] \<and> ''ab'' \<noteq> ''abc'' \<and>
   \<not> strict_prefix ''abc'' ''ab'' \<and>
   Get (fst (Put heap_ab trie_ab ''abc'' (V_string ''x''))) (snd (Put heap_ab trie_ab ''abc'' (V_string ''x'')))
     T_uint32 ''ab'' = Some (V_uint32 1)"
proof -
  have w: "wf_trie heap_ab trie_ab" by (rule wf_ab)
  have k: "''abc'' \<noteq> []" "''ab'' \<noteq> ''abc''" "\<not> strict_prefix ''abc'' ''ab''" by simp_all
  from Put_frame_other_keys [OF w k, of "V_string ''x''" T_uint32] w k show ?thesis
    by (simp only: Get_ab simp_thms)
qed

end
